theory Spec2Isabelle
  imports Complex_Main "HOL-Library.Product_Lexorder" "HOL-Library.Multiset"
begin

section \<open>Data model of \<open>scripts/verify-math.py\<close>\<close>

text \<open>
  The script works on JSON records. A split is a dictionary with the keys
  \<open>participantId\<close>, \<open>shareType\<close> and the optional keys \<open>share\<close> and \<open>amount\<close>.
  Participant identifiers are any totally ordered type (the script compares them when it
  sorts). Money is an unbounded Python \<open>int\<close>. The \<open>share\<close> of a split is a Python
  \<open>float\<close>; it is modelled here as an exact real number, so the rounding of IEEE
  arithmetic is not part of this development.
\<close>

datatype py_error = ValueError | KeyError | IndexError | ZeroDivisionError

record 'p split =
  participantId :: 'p
  shareType :: string
  share :: "real option"
  amount :: "int option"

text \<open>
  A settlement is the dictionary \<open>{'from': ..., 'to': ..., 'amount': ...}\<close> that
  \<open>resolve_debts\<close> appends; \<open>from\<close> and \<open>to\<close> hold display names.
\<close>

record settlement =
  from_name :: string
  to_name :: string
  paid :: int

section \<open>Share normalisation\<close>

text \<open>\<open>range(r)\<close> for a Python integer \<open>r\<close>: empty when \<open>r \<le> 0\<close>.\<close>

definition py_range :: "int \<Rightarrow> nat list" where
  "py_range r = [0..<nat r]"

text \<open>The loop \<open>for i in range(remainder): result[i] += 1\<close>.\<close>

fun incr_loop :: "nat list \<Rightarrow> int list \<Rightarrow> py_error + int list" where
  "incr_loop [] result = Inr result"
| "incr_loop (i # rest) result =
     (if i < length result then incr_loop rest (result[i := result ! i + 1])
      else Inl IndexError)"

definition normalize_equal :: "nat \<Rightarrow> int \<Rightarrow> py_error + int list" where
  "normalize_equal cnt tot =
     (if cnt = 0 then Inl ZeroDivisionError
      else
        let base = tot div int cnt;
            remainder = tot - base * int cnt;
            result = replicate cnt base
        in incr_loop (py_range remainder) result)"

text \<open>
  \<open>s["share"]\<close> for every split, in order; the first split without the key raises
  \<open>KeyError\<close>.
\<close>

fun get_shares :: "'p split list \<Rightarrow> py_error + real list" where
  "get_shares [] = Inr []"
| "get_shares (s # rest) =
     (case share s of
        None \<Rightarrow> Inl KeyError
      | Some x \<Rightarrow> (case get_shares rest of Inl e \<Rightarrow> Inl e | Inr xs \<Rightarrow> Inr (x # xs)))"

text \<open>\<open>math.ulp(1.0)\<close> of IEEE double precision.\<close>

definition ulp_one :: real where
  "ulp_one = 1 / 2 ^ 52"

definition tolerance :: real where
  "tolerance = 1 / 100 + ulp_one * 100"

text \<open>
  The loop \<open>for i in range(remainder): result[fractional_parts[i]["index"]] += 1\<close>.
  An entry of \<open>fractional_parts\<close> is the pair (index, fraction).
\<close>

fun award_loop :: "nat list \<Rightarrow> (nat \<times> real) list \<Rightarrow> int list \<Rightarrow> py_error + int list" where
  "award_loop [] fractional_parts result = Inr result"
| "award_loop (i # rest) fractional_parts result =
     (if i < length fractional_parts then
        (let idx = fst (fractional_parts ! i) in
         if idx < length result
         then award_loop rest fractional_parts (result[idx := result ! idx + 1])
         else Inl IndexError)
      else Inl IndexError)"

text \<open>
  The part that \<open>_normalize_percentage\<close> (lines 26 to 44) and \<open>_normalize_weight\<close>
  (lines 53 to 70) have in common, word for word: floor, remainder, sort of the
  fractional parts by \<open>(-fraction, index)\<close>, award.
\<close>

definition largest_remainder :: "real list \<Rightarrow> int \<Rightarrow> py_error + int list" where
  "largest_remainder exact_amounts tot =
     (let base_amounts = map floor exact_amounts;
          base_total = sum_list base_amounts;
          remainder = tot - base_total;
          fractional_parts =
            map (\<lambda>i. (i, exact_amounts ! i - of_int (base_amounts ! i)))
              [0..<length exact_amounts];
          sorted_parts = sort_key (\<lambda>x. (- snd x, fst x)) fractional_parts
      in award_loop (py_range remainder) sorted_parts base_amounts)"

definition normalize_percentage :: "'p split list \<Rightarrow> int \<Rightarrow> py_error + int list" where
  "normalize_percentage stable_splits tot =
     (case get_shares stable_splits of
        Inl e \<Rightarrow> Inl e
      | Inr shares \<Rightarrow>
          let total_percentage = sum_list shares in
          if \<bar>total_percentage - 100\<bar> > tolerance then Inl ValueError
          else largest_remainder (map (\<lambda>x. (x / 100) * of_int tot) shares) tot)"

definition normalize_weight :: "'p split list \<Rightarrow> int \<Rightarrow> py_error + int list" where
  "normalize_weight stable_splits tot =
     (case get_shares stable_splits of
        Inl e \<Rightarrow> Inl e
      | Inr shares \<Rightarrow>
          let total_weight = sum_list shares in
          if total_weight \<le> 0 then Inl ValueError
          else largest_remainder (map (\<lambda>x. (x / total_weight) * of_int tot) shares) tot)"

text \<open>
  \<open>s.get("amount") is None\<close> is true for a split without the key; those splits are
  counted first, then the amounts are summed.
\<close>

definition normalize_amount :: "'p split list \<Rightarrow> int \<Rightarrow> py_error + int list" where
  "normalize_amount stable_splits tot =
     (let missing_amounts = filter (\<lambda>s. amount s = None) stable_splits in
      if missing_amounts \<noteq> [] then Inl ValueError
      else
        let amounts = map (\<lambda>s. the (amount s)) stable_splits;
            sum_amounts = sum_list amounts
        in if sum_amounts \<noteq> tot then Inl ValueError else Inr amounts)"

text \<open>
  The canonical order: the pairs (originalIndex, split) sorted by the key
  \<open>(participantId, originalIndex)\<close>, compared as Python compares tuples.
\<close>

definition stable_order :: "('p::linorder) split list \<Rightarrow> (nat \<times> 'p split) list" where
  "stable_order splits =
     sort_key (\<lambda>x. (participantId (snd x), fst x)) (enumerate 0 splits)"

text \<open>
  The loop \<open>for stable_index, amount in enumerate(stable_normalized):
  normalized[stable[stable_index]["originalIndex"]] = amount\<close>.
\<close>

fun scatter :: "(nat \<times> 'a) list \<Rightarrow> (nat \<times> int) list \<Rightarrow> int list \<Rightarrow> py_error + int list" where
  "scatter stable_list [] normalized = Inr normalized"
| "scatter stable_list ((stable_index, amt) # rest) normalized =
     (if stable_index < length stable_list then
        (let original_index = fst (stable_list ! stable_index) in
         if original_index < length normalized
         then scatter stable_list rest (normalized[original_index := amt])
         else Inl IndexError)
      else Inl IndexError)"

definition normalize_shares :: "('p::linorder) split list \<Rightarrow> int \<Rightarrow> py_error + int list" where
  "normalize_shares splits expense_amount =
     (if splits = [] then Inr []
      else if expense_amount = 0 then Inr (replicate (length splits) 0)
      else
        let share_type = shareType (hd splits) in
        if \<not> list_all (\<lambda>s. shareType s = share_type) splits then Inl ValueError
        else
          let stable_list = stable_order splits;
              stable_splits = map snd stable_list
          in case
               (if share_type = ''equal'' then normalize_equal (length stable_splits) expense_amount
                else if share_type = ''percentage'' then normalize_percentage stable_splits expense_amount
                else if share_type = ''weight'' then normalize_weight stable_splits expense_amount
                else if share_type = ''amount'' then normalize_amount stable_splits expense_amount
                else Inl ValueError)
             of
               Inl e \<Rightarrow> Inl e
             | Inr stable_normalized \<Rightarrow>
                 scatter stable_list (enumerate 0 stable_normalized)
                   (replicate (length splits) 0))"

section \<open>Debt settlement\<close>

text \<open>\<open>participants.get(id, "Unknown")\<close>.\<close>

definition lookup_name :: "('p \<rightharpoonup> string) \<Rightarrow> 'p \<Rightarrow> string" where
  "lookup_name participants p = (case participants p of None \<Rightarrow> ''Unknown'' | Some n \<Rightarrow> n)"

text \<open>
  The \<open>while\<close> loop of \<open>resolve_debts\<close>. The entries of \<open>debtors\<close> and \<open>creditors\<close>
  are the dictionaries \<open>{'id': ..., 'amount': ...}\<close>, here pairs (id, amount); the
  loop updates the amount of the entry a pointer stands on.
\<close>

function resolve_loop ::
  "nat \<Rightarrow> nat \<Rightarrow> ('p \<times> int) list \<Rightarrow> ('p \<times> int) list \<Rightarrow> ('p \<rightharpoonup> string)
     \<Rightarrow> settlement list \<Rightarrow> settlement list" where
  "resolve_loop d_idx c_idx debtors creditors participants settlements =
     (if d_idx < length debtors \<and> c_idx < length creditors then
        (let debtor = debtors ! d_idx;
             creditor = creditors ! c_idx;
             amt = min \<bar>snd debtor\<bar> (snd creditor);
             from_n = lookup_name participants (fst debtor);
             to_n = lookup_name participants (fst creditor);
             settlements' = settlements @ [\<lparr>from_name = from_n, to_name = to_n, paid = amt\<rparr>];
             debtor' = (fst debtor, snd debtor + amt);
             creditor' = (fst creditor, snd creditor - amt);
             debtors' = debtors[d_idx := debtor'];
             creditors' = creditors[c_idx := creditor'];
             d_idx' = (if \<bar>snd debtor'\<bar> < 1 then d_idx + 1 else d_idx);
             c_idx' = (if snd creditor' < 1 then c_idx + 1 else c_idx)
         in resolve_loop d_idx' c_idx' debtors' creditors' participants settlements')
      else settlements)"
  by pat_completeness auto
termination
proof (relation "measures
    [\<lambda>(d_idx, c_idx, debtors, creditors, participants, settlements).
        (length debtors - d_idx) + (length creditors - c_idx),
     \<lambda>(d_idx, c_idx, debtors, creditors, participants, settlements).
        nat (snd (creditors ! c_idx))]", goal_cases)
  case 1
  show ?case by simp
next
  case (2 d_idx c_idx debtors creditors participants settlements debtor creditor amt
      from_n to_n settlements' debtor' creditor' debtors' creditors' d_idx' c_idx')
  then show ?case
    by (auto simp: min_def split: if_splits)
qed

text \<open>
  \<open>balances\<close> is a dictionary; \<open>balances.items()\<close> yields its entries in insertion
  order, so it is an association list here. \<open>list.sort\<close> is stable, and with
  \<open>reverse=True\<close> it still keeps entries with equal keys in their original order, which
  is a stable sort on the negated key.
\<close>

definition resolve_debts :: "('p \<times> int) list \<Rightarrow> ('p \<rightharpoonup> string) \<Rightarrow> settlement list" where
  "resolve_debts balances participants =
     (let debtors = filter (\<lambda>x. snd x < 0) balances;
          creditors = filter (\<lambda>x. \<not> snd x < 0 \<and> snd x > 0) balances;
          debtors_sorted = sort_key snd debtors;
          creditors_sorted = sort_key (\<lambda>x. - snd x) creditors
      in resolve_loop 0 0 debtors_sorted creditors_sorted participants [])"

text \<open>
  The invariant of the loop on integer balances: every debtor from the debtor pointer on
  still owes at least one unit, every creditor from the creditor pointer on is still
  owed at least one unit.
\<close>

definition loop_inv :: "nat \<Rightarrow> nat \<Rightarrow> ('p \<times> int) list \<Rightarrow> ('p \<times> int) list \<Rightarrow> bool" where
  "loop_inv d_idx c_idx debtors creditors \<longleftrightarrow>
     (\<forall>i. d_idx \<le> i \<and> i < length debtors \<longrightarrow> snd (debtors ! i) \<le> - 1) \<and>
     (\<forall>j. c_idx \<le> j \<and> j < length creditors \<longrightarrow> 1 \<le> snd (creditors ! j))"





text \<open>
  For the proofs. \<open>put\<close> is one assignment \<open>normalized[i] = v\<close> of the scatter loop and
  \<open>bump_all\<close> the effect of \<open>result[i] += 1\<close> for a list of positions, both without the
  range checks; \<open>fractional_parts\<close> and \<open>sorted_parts\<close> name the two lists that
  \<open>largest_remainder\<close> builds; \<open>per_type\<close> is the \<open>if\<close>/\<open>elif\<close> chain of
  \<open>normalize_shares\<close> on the share type.
\<close>

fun put :: "nat \<times> int \<Rightarrow> int list \<Rightarrow> int list" where
  "put (i, v) acc = acc[i := v]"

fun bump_all :: "nat list \<Rightarrow> int list \<Rightarrow> int list" where
  "bump_all [] r = r"
| "bump_all (i # rest) r = bump_all rest (r[i := r ! i + 1])"

definition fractional_parts :: "real list \<Rightarrow> (nat \<times> real) list" where
  "fractional_parts xs = map (\<lambda>i. (i, xs ! i - of_int \<lfloor>xs ! i\<rfloor>)) [0..<length xs]"

definition sorted_parts :: "real list \<Rightarrow> (nat \<times> real) list" where
  "sorted_parts xs = sort_key (\<lambda>x. (- snd x, fst x)) (fractional_parts xs)"

definition per_type :: "string \<Rightarrow> 'p split list \<Rightarrow> int \<Rightarrow> py_error + int list" where
  "per_type share_type stable_splits T =
     (if share_type = ''equal'' then normalize_equal (length stable_splits) T
      else if share_type = ''percentage'' then normalize_percentage stable_splits T
      else if share_type = ''weight'' then normalize_weight stable_splits T
      else if share_type = ''amount'' then normalize_amount stable_splits T
      else Inl ValueError)"

section \<open>Properties of the settlement loop\<close>

declare resolve_loop.simps [simp del]

text \<open>One iteration of the loop body, on the part of the state the invariant is about.\<close>

lemma loop_inv_step:
  assumes "loop_inv d c ds cs" "d < length ds" "c < length cs"
    and "amt = min \<bar>snd (ds ! d)\<bar> (snd (cs ! c))"
    and "dv = snd (ds ! d) + amt" "cv = snd (cs ! c) - amt"
  shows "loop_inv (if \<bar>dv\<bar> < 1 then d + 1 else d) (if cv < 1 then c + 1 else c)
           (ds[d := (fst (ds ! d), dv)]) (cs[c := (fst (cs ! c), cv)])"
    and "1 \<le> amt" and "\<bar>dv\<bar> < 1 \<or> cv < 1"
proof -
  from assms(1-3) have d: "snd (ds ! d) \<le> - 1" and c: "1 \<le> snd (cs ! c)"
    by (auto simp: loop_inv_def)
  show "1 \<le> amt" "\<bar>dv\<bar> < 1 \<or> cv < 1" using d c assms(4-6) by (auto simp: min_def)
  have dv: "dv \<le> 0" and cv: "0 \<le> cv" using d c assms(4-6) by (auto simp: min_def)
  show "loop_inv (if \<bar>dv\<bar> < 1 then d + 1 else d) (if cv < 1 then c + 1 else c)
           (ds[d := (fst (ds ! d), dv)]) (cs[c := (fst (cs ! c), cv)])"
    using assms(1-3) dv cv unfolding loop_inv_def
    by (auto simp: nth_list_update)
qed

lemma resolve_loop_stop:
  "\<not> (d < length ds \<and> c < length cs) \<Longrightarrow> resolve_loop d c ds cs names acc = acc"
  by (subst resolve_loop.simps) auto

lemma resolve_loop_step:
  assumes "d < length ds" "c < length cs"
    and "amt = min \<bar>snd (ds ! d)\<bar> (snd (cs ! c))"
    and "dv = snd (ds ! d) + amt" "cv = snd (cs ! c) - amt"
  shows "resolve_loop d c ds cs names acc =
     resolve_loop (if \<bar>dv\<bar> < 1 then d + 1 else d) (if cv < 1 then c + 1 else c)
       (ds[d := (fst (ds ! d), dv)]) (cs[c := (fst (cs ! c), cv)]) names
       (acc @ [\<lparr>from_name = lookup_name names (fst (ds ! d)),
                to_name = lookup_name names (fst (cs ! c)), paid = amt\<rparr>])"
  using assms by (subst resolve_loop.simps) (simp add: Let_def)

lemma resolve_loop_induct [consumes 0, case_names stop step]:
  assumes stop: "\<And>d c ds cs names acc. \<not> (d < length ds \<and> c < length cs) \<Longrightarrow> P d c ds cs names acc"
    and step: "\<And>d c ds cs names acc amt dv cv.
       d < length ds \<Longrightarrow> c < length cs \<Longrightarrow>
       amt = min \<bar>snd (ds ! d)\<bar> (snd (cs ! c)) \<Longrightarrow>
       dv = snd (ds ! d) + amt \<Longrightarrow> cv = snd (cs ! c) - amt \<Longrightarrow>
       P (if \<bar>dv\<bar> < 1 then d + 1 else d) (if cv < 1 then c + 1 else c)
         (ds[d := (fst (ds ! d), dv)]) (cs[c := (fst (cs ! c), cv)]) names
         (acc @ [\<lparr>from_name = lookup_name names (fst (ds ! d)),
                  to_name = lookup_name names (fst (cs ! c)), paid = amt\<rparr>]) \<Longrightarrow>
       P d c ds cs names acc"
  shows "P d c ds cs names acc"
proof (induction d c ds cs names acc rule: resolve_loop.induct)
  case (1 d c ds cs names acc)
  show ?case
  proof (cases "d < length ds \<and> c < length cs")
    case False
    then show ?thesis by (rule stop)
  next
    case True
    show ?thesis
      by (rule step[OF _ _ refl refl refl])
         (use True 1[OF True refl refl refl refl refl refl refl refl refl refl refl refl] in simp_all)
  qed
qed

lemma resolve_loop_paid:
  "loop_inv d c ds cs \<Longrightarrow> list_all (\<lambda>s. 1 \<le> paid s) acc \<Longrightarrow>
     list_all (\<lambda>s. 1 \<le> paid s) (resolve_loop d c ds cs names acc)"
proof (induction d c ds cs names acc rule: resolve_loop_induct)
  case (stop d c ds cs names acc)
  then show ?case by (simp add: resolve_loop_stop)
next
  case (step d c ds cs names acc amt dv cv)
  note st = loop_inv_step[OF step.prems(1) step.hyps(1-5)]
  show ?case
    unfolding resolve_loop_step[OF step.hyps(1-5)]
    by (rule step.IH) (use st step.prems(2) in simp_all)
qed

lemma resolve_loop_length:
  "loop_inv d c ds cs \<Longrightarrow>
     length (resolve_loop d c ds cs names acc) \<le>
       length acc + (if d < length ds \<and> c < length cs
                     then (length ds - d) + (length cs - c) - 1 else 0)"
proof (induction d c ds cs names acc rule: resolve_loop_induct)
  case (stop d c ds cs names acc)
  then show ?case by (simp add: resolve_loop_stop)
next
  case (step d c ds cs names acc amt dv cv)
  note st = loop_inv_step[OF step.prems(1) step.hyps(1-5)]
  show ?case
    unfolding resolve_loop_step[OF step.hyps(1-5)]
    using step.IH[OF st(1)] st(3) step.hyps(1,2)
    by (auto split: if_splits)
qed


lemma loop_inv_initial:
  "loop_inv 0 0 (sort_key snd (filter (\<lambda>x. snd x < 0) balances))
     (sort_key (\<lambda>x. - snd x) (filter (\<lambda>x. \<not> snd x < 0 \<and> snd x > 0) balances))"
  unfolding loop_inv_def
proof (intro conjI allI impI)
  fix i
  assume "0 \<le> i \<and> i < length (sort_key snd (filter (\<lambda>x. snd x < 0) balances))"
  then have "sort_key snd (filter (\<lambda>x. snd x < 0) balances) ! i
      \<in> set (sort_key snd (filter (\<lambda>x. snd x < 0) balances))"
    by (intro nth_mem) simp
  then show "snd (sort_key snd (filter (\<lambda>x. snd x < 0) balances) ! i) \<le> - 1"
    by simp
next
  fix j
  assume "0 \<le> j \<and> j < length (sort_key (\<lambda>x. - snd x)
      (filter (\<lambda>x. \<not> snd x < 0 \<and> snd x > 0) balances))"
  then have "sort_key (\<lambda>x. - snd x) (filter (\<lambda>x. \<not> snd x < 0 \<and> snd x > 0) balances) ! j
      \<in> set (sort_key (\<lambda>x. - snd x) (filter (\<lambda>x. \<not> snd x < 0 \<and> snd x > 0) balances))"
    by (intro nth_mem) simp
  then show "1 \<le> snd (sort_key (\<lambda>x. - snd x)
      (filter (\<lambda>x. \<not> snd x < 0 \<and> snd x > 0) balances) ! j)"
    by simp
qed

lemma resolve_loop_length_init:
  assumes "loop_inv 0 0 ds cs"
  shows "length (resolve_loop 0 0 ds cs names []) \<le> length ds + length cs - 1"
proof (cases "0 < length ds \<and> 0 < length cs")
  case True
  then show ?thesis
    using resolve_loop_length[OF assms, of names "[]"] by simp
next
  case False
  then have "resolve_loop 0 0 ds cs names [] = []"
    by (simp add: resolve_loop_stop)
  then show ?thesis by simp
qed

lemma creditor_filter:
  "filter (\<lambda>x. \<not> snd x < 0 \<and> snd x > 0) balances = filter (\<lambda>x. 0 < snd x) (balances :: ('p \<times> int) list)"
  by (rule filter_cong) auto

lemma bound_arith: "n \<le> a + b - 1 \<Longrightarrow> int n \<le> max 0 (int a + int b - 1)" for n a b :: nat
  by linarith

text \<open>
  Claim C10. On integer balances every settlement that \<open>resolve_debts\<close> emits has an
  amount of at least one minor unit: a pointer only ever stands on a debtor with balance
  at most \<open>-1\<close> and a creditor with balance at least \<open>1\<close>.
\<close>

theorem resolve_debts_amount_positive:
  "list_all (\<lambda>s. 1 \<le> paid s) (resolve_debts balances participants)"
  unfolding resolve_debts_def Let_def
  by (rule resolve_loop_paid[OF loop_inv_initial]) simp

text \<open>
  Claim C2. \<open>resolve_debts\<close> terminates on every list of integer balances, zero-sum or
  not: \<open>resolve_loop\<close> is a total function, its termination proved above for every
  state. With \<open>d\<close> entries of negative balance and \<open>c\<close> entries of positive balance it
  emits at most \<open>d + c - 1\<close> settlements (and none when there is no debtor or no creditor,
  where \<open>d + c - 1\<close> may be \<open>-1\<close>).
\<close>

theorem resolve_debts_settlement_bound:
  "int (length (resolve_debts balances participants)) \<le>
     max 0 (int (length (filter (\<lambda>x. snd x < 0) balances))
            + int (length (filter (\<lambda>x. 0 < snd x) balances)) - 1)"
proof (rule bound_arith)
  have "length (resolve_debts balances participants) \<le>
      length (sort_key snd (filter (\<lambda>x. snd x < 0) balances))
      + length (sort_key (\<lambda>x. - snd x) (filter (\<lambda>x. \<not> snd x < 0 \<and> snd x > 0) balances)) - 1"
    unfolding resolve_debts_def Let_def
    by (rule resolve_loop_length_init[OF loop_inv_initial])
  then show "length (resolve_debts balances participants) \<le>
      length (filter (\<lambda>x. snd x < 0) balances) + length (filter (\<lambda>x. 0 < snd x) balances) - 1"
    unfolding creditor_filter length_sort .
qed











section \<open>Properties of share normalisation\<close>

subsection \<open>The canonical order\<close>

lemma mset_stable_order: "mset (stable_order splits) = mset (enumerate 0 splits)"
  by (simp add: stable_order_def)

lemma length_stable_order: "length (stable_order splits) = length splits"
  by (simp add: stable_order_def)

lemma set_stable_order: "set (stable_order splits) = set (enumerate 0 splits)"
  by (simp add: stable_order_def)

lemma stable_order_entry:
  assumes "x \<in> set (stable_order splits)"
  shows "fst x < length splits" and "snd x = splits ! fst x"
proof -
  obtain i s where x: "x = (i, s)" by (cases x)
  with assms have "(i, s) \<in> set (enumerate 0 splits)"
    by (simp add: set_stable_order)
  then have "i < length splits \<and> s = splits ! i"
    by (simp add: in_set_enumerate_eq)
  then show "fst x < length splits" and "snd x = splits ! fst x"
    by (simp_all add: x)
qed

lemma mset_fst_stable_order: "mset (map fst (stable_order splits)) = mset [0..<length splits]"
proof -
  have "mset (map fst (stable_order splits)) = image_mset fst (mset (stable_order splits))"
    by (simp only: mset_map)
  also have "\<dots> = image_mset fst (mset (enumerate 0 splits))"
    by (simp only: mset_stable_order)
  also have "\<dots> = mset (map fst (enumerate 0 splits))"
    by (simp only: mset_map)
  also have "\<dots> = mset [0..<length splits]"
    by (simp only: map_fst_enumerate add_0)
  finally show ?thesis .
qed

lemma distinct_fst_stable_order: "distinct (map fst (stable_order splits))"
proof -
  have "distinct (map fst (stable_order splits)) = distinct [0..<length splits]"
    by (rule mset_eq_imp_distinct_iff) (rule mset_fst_stable_order)
  then show ?thesis by simp
qed

lemma set_fst_stable_order: "set (map fst (stable_order splits)) = {0..<length splits}"
proof -
  have "set (map fst (stable_order splits)) = set [0..<length splits]"
    by (rule mset_eq_setD) (rule mset_fst_stable_order)
  then show ?thesis by simp
qed

lemma mset_snd_stable_order: "mset (map snd (stable_order splits)) = mset splits"
proof -
  have "mset (map snd (stable_order splits)) = image_mset snd (mset (stable_order splits))"
    by (simp only: mset_map)
  also have "\<dots> = image_mset snd (mset (enumerate 0 splits))"
    by (simp only: mset_stable_order)
  also have "\<dots> = mset (map snd (enumerate 0 splits))"
    by (simp only: mset_map)
  also have "\<dots> = mset splits"
    by (simp only: map_snd_enumerate)
  finally show ?thesis .
qed

subsection \<open>Scattering back\<close>

lemma scatter_fold:
  assumes "k + length vals \<le> length st" "\<forall>x\<in>set st. fst x < length nz"
  shows "scatter st (enumerate k vals) nz =
           Inr (fold put (zip (map fst (drop k st)) vals) nz)"
  using assms
proof (induction vals arbitrary: k nz)
  case Nil
  then show ?case by simp
next
  case (Cons v vals)
  from Cons.prems have k: "k < length st" by simp
  then have d: "drop k st = st ! k # drop (Suc k) st"
    by (simp add: Cons_nth_drop_Suc)
  have i: "fst (st ! k) < length nz"
    using Cons.prems(2) k by simp
  have "scatter st (enumerate (Suc k) vals) (nz[fst (st ! k) := v]) =
      Inr (fold put (zip (map fst (drop (Suc k) st)) vals) (nz[fst (st ! k) := v]))"
    by (rule Cons.IH) (use Cons.prems in simp_all)
  then show ?case
    using k i by (simp add: d)
qed

lemma length_fold_put: "length (fold put ivs nz) = length nz"
  by (induction ivs arbitrary: nz) auto

lemma fold_put_other:
  "j \<notin> set (map fst ivs) \<Longrightarrow> fold put ivs nz ! j = nz ! j"
  by (induction ivs arbitrary: nz) auto

lemma fold_put_nth:
  assumes "distinct idxs" "length idxs = length vals" "\<forall>i\<in>set idxs. i < length nz" "k < length idxs"
  shows "fold put (zip idxs vals) nz ! (idxs ! k) = vals ! k"
  using assms
proof (induction idxs arbitrary: vals nz k)
  case Nil
  then show ?case by simp
next
  case (Cons i idxs)
  then obtain v vs where vals: "vals = v # vs" by (cases vals) auto
  show ?case
  proof (cases k)
    case 0
    have "i \<notin> set (map fst (zip idxs vs))"
      using Cons.prems(1) by (auto dest: set_zip_leftD)
    then have "fold put (zip idxs vs) (nz[i := v]) ! i = nz[i := v] ! i"
      by (rule fold_put_other)
    then show ?thesis using 0 vals Cons.prems(3) by simp
  next
    case (Suc k')
    have "fold put (zip idxs vs) (nz[i := v]) ! (idxs ! k') = vs ! k'"
      by (rule Cons.IH) (use Cons.prems vals Suc in auto)
    then show ?thesis using Suc vals by simp
  qed
qed

text \<open>What \<open>normalize_shares\<close> returns once the per-type function has produced
  \<open>vals\<close> in canonical order: a list \<open>r\<close> with \<open>r ! originalIndex = vals ! k\<close>.\<close>

lemma scatter_stable_order:
  assumes "length vals = length splits"
  shows "\<exists>r. scatter (stable_order splits) (enumerate 0 vals) (replicate (length splits) 0) = Inr r
          \<and> length r = length splits
          \<and> map (\<lambda>x. r ! fst x) (stable_order splits) = vals"
proof -
  let ?st = "stable_order splits"
  let ?nz = "replicate (length splits) (0::int)"
  let ?r = "fold put (zip (map fst ?st) vals) ?nz"
  have in_range: "\<forall>x\<in>set ?st. fst x < length ?nz"
    by (simp add: stable_order_entry(1))
  have "scatter ?st (enumerate 0 vals) ?nz = Inr (fold put (zip (map fst (drop 0 ?st)) vals) ?nz)"
    by (rule scatter_fold) (use assms in_range in \<open>simp_all add: length_stable_order\<close>)
  then have 1: "scatter ?st (enumerate 0 vals) ?nz = Inr ?r" by simp
  have 2: "length ?r = length splits" by (simp add: length_fold_put)
  have 3: "map (\<lambda>x. ?r ! fst x) ?st = vals"
  proof (rule nth_equalityI)
    show "length (map (\<lambda>x. ?r ! fst x) ?st) = length vals"
      using assms by (simp add: length_stable_order)
  next
    fix k assume "k < length (map (\<lambda>x. ?r ! fst x) ?st)"
    then have k: "k < length ?st" by simp
    have "?r ! (map fst ?st ! k) = vals ! k"
      by (rule fold_put_nth)
         (use k assms in_range in \<open>auto simp: distinct_fst_stable_order length_stable_order\<close>)
    then show "map (\<lambda>x. ?r ! fst x) ?st ! k = vals ! k"
      using k by simp
  qed
  show ?thesis
    by (rule exI[of _ ?r]) (use 1 2 3 in simp)
qed

subsection \<open>Adding one unit at given positions\<close>

lemma length_bump_all: "length (bump_all idxs r) = length r"
  by (induction idxs arbitrary: r) simp_all

lemma sum_list_incr: "i < length r \<Longrightarrow> sum_list (r[i := r ! i + 1]) = sum_list r + (1::int)"
proof (induction r arbitrary: i)
  case Nil
  then show ?case by simp
next
  case (Cons x r)
  then show ?case by (cases i) simp_all
qed

lemma sum_list_bump_all:
  "\<forall>i\<in>set idxs. i < length r \<Longrightarrow> sum_list (bump_all idxs r) = sum_list r + int (length idxs)"
proof (induction idxs arbitrary: r)
  case Nil
  then show ?case by simp
next
  case (Cons i idxs)
  have "sum_list (bump_all idxs (r[i := r ! i + 1])) =
      sum_list (r[i := r ! i + 1]) + int (length idxs)"
    by (rule Cons.IH) (use Cons.prems in simp)
  then show ?case using Cons.prems by (simp add: sum_list_incr)
qed

lemma bump_all_nth:
  "distinct idxs \<Longrightarrow> \<forall>i\<in>set idxs. i < length r \<Longrightarrow> j < length r \<Longrightarrow>
     bump_all idxs r ! j = r ! j + (if j \<in> set idxs then 1 else 0)"
proof (induction idxs arbitrary: r)
  case Nil
  then show ?case by simp
next
  case (Cons i idxs)
  have "bump_all idxs (r[i := r ! i + 1]) ! j =
      (r[i := r ! i + 1]) ! j + (if j \<in> set idxs then 1 else 0)"
    by (rule Cons.IH) (use Cons.prems in simp_all)
  then show ?case using Cons.prems by (auto simp: nth_list_update)
qed

lemma incr_loop_fold:
  "\<forall>i\<in>set idxs. i < length r \<Longrightarrow> incr_loop idxs r = Inr (bump_all idxs r)"
  by (induction idxs arbitrary: r) simp_all

lemma award_loop_fold:
  assumes "\<forall>i\<in>set is. i < length fp" "\<forall>x\<in>set fp. fst x < length r"
  shows "award_loop is fp r = Inr (bump_all (map (\<lambda>i. fst (fp ! i)) is) r)"
  using assms
proof (induction "is" arbitrary: r)
  case Nil
  then show ?case by simp
next
  case (Cons i "is")
  have i: "i < length fp" using Cons.prems(1) by simp
  then have idx: "fst (fp ! i) < length r" using Cons.prems(2) by simp
  have "award_loop is fp (r[fst (fp ! i) := r ! fst (fp ! i) + 1]) =
      Inr (bump_all (map (\<lambda>i. fst (fp ! i)) is) (r[fst (fp ! i) := r ! fst (fp ! i) + 1]))"
    by (rule Cons.IH) (use Cons.prems in simp_all)
  then show ?case using i idx by (simp add: Let_def)
qed

lemma award_loop_overrun:
  assumes "length fp < k" "j \<le> length fp" "\<forall>x\<in>set fp. fst x < length r"
  shows "award_loop [j..<k] fp r = Inl IndexError"
  using assms
proof (induction "k - j" arbitrary: j r)
  case 0
  then show ?case by simp
next
  case (Suc m)
  then have jk: "j < k" by simp
  then have upt: "[j..<k] = j # [Suc j..<k]" by (simp add: upt_conv_Cons)
  show ?case
  proof (cases "j < length fp")
    case False
    then show ?thesis by (simp add: upt)
  next
    case True
    then have idx: "fst (fp ! j) < length r" using Suc.prems(3) by simp
    have "award_loop [Suc j..<k] fp (r[fst (fp ! j) := r ! fst (fp ! j) + 1]) = Inl IndexError"
      by (rule Suc.hyps(1)) (use Suc.hyps(2) Suc.prems True in simp_all)
    then show ?thesis using True idx by (simp add: upt Let_def)
  qed
qed

subsection \<open>Equal split\<close>

lemma normalize_equal_result:
  assumes "0 < n"
  shows "normalize_equal n T =
     Inr (replicate (nat (T - T div int n * int n)) (T div int n + 1) @
          replicate (n - nat (T - T div int n * int n)) (T div int n))"
proof -
  define base where "base = T div int n"
  define rem where "rem = T - base * int n"
  have rem_mod: "rem = T mod int n"
    unfolding rem_def base_def by (simp add: minus_div_mult_eq_mod)
  have rem0: "0 \<le> rem" and remn: "rem < int n"
    using assms by (simp_all add: rem_mod)
  then have k: "nat rem \<le> n" by simp
  let ?r = "bump_all [0..<nat rem] (replicate n base)"
  have 1: "normalize_equal n T = Inr ?r"
    unfolding normalize_equal_def Let_def py_range_def
    using assms k by (simp add: incr_loop_fold base_def rem_def)
  have 2: "?r = replicate (nat rem) (base + 1) @ replicate (n - nat rem) base"
  proof (rule nth_equalityI)
    show "length ?r = length (replicate (nat rem) (base + 1) @ replicate (n - nat rem) base)"
      using k by (simp add: length_bump_all)
  next
    fix j assume "j < length ?r"
    then have j: "j < n" by (simp add: length_bump_all)
    have "?r ! j = replicate n base ! j + (if j \<in> set [0..<nat rem] then 1 else 0)"
      by (rule bump_all_nth) (use j k in simp_all)
    then show "?r ! j = (replicate (nat rem) (base + 1) @ replicate (n - nat rem) base) ! j"
      using j k by (simp add: nth_append)
  qed
  show ?thesis using 1 2 by (simp add: base_def rem_def)
qed

lemma normalize_equal_sum:
  assumes "0 < n" "normalize_equal n T = Inr r"
  shows "sum_list r = T" and "length r = n"
proof -
  define base where "base = T div int n"
  define rem where "rem = T - base * int n"
  have rem_mod: "rem = T mod int n"
    unfolding rem_def base_def by (simp add: minus_div_mult_eq_mod)
  have rem0: "0 \<le> rem" and remn: "rem < int n"
    using assms by (simp_all add: rem_mod)
  have r: "r = replicate (nat rem) (base + 1) @ replicate (n - nat rem) base"
    using normalize_equal_result[OF assms(1), of T] assms(2) by (simp add: base_def rem_def)
  show "length r = n" using rem0 remn by (simp add: r)
  have "sum_list r = int (nat rem) * (base + 1) + int (n - nat rem) * base"
    by (simp add: r sum_list_replicate)
  also have "\<dots> = rem * (base + 1) + (int n - rem) * base"
    using rem0 remn by (simp add: of_nat_diff)
  also have "\<dots> = T"
    by (simp add: rem_def algebra_simps)
  finally show "sum_list r = T" .
qed

subsection \<open>Largest remainder\<close>

lemma largest_remainder_unfold:
  "largest_remainder xs T =
     award_loop (py_range (T - sum_list (map floor xs))) (sorted_parts xs) (map floor xs)"
proof -
  have "map (\<lambda>i. (i, xs ! i - of_int (map floor xs ! i))) [0..<length xs] = fractional_parts xs"
    unfolding fractional_parts_def by (rule map_cong) simp_all
  then show ?thesis
    by (simp add: largest_remainder_def Let_def sorted_parts_def)
qed

lemma length_fractional_parts: "length (fractional_parts xs) = length xs"
  by (simp add: fractional_parts_def)

lemma map_fst_fractional_parts: "map fst (fractional_parts xs) = [0..<length xs]"
  by (simp add: fractional_parts_def comp_def)

lemma length_sorted_parts: "length (sorted_parts xs) = length xs"
  by (simp add: sorted_parts_def length_fractional_parts)

lemma mset_sorted_parts: "mset (sorted_parts xs) = mset (fractional_parts xs)"
  by (simp add: sorted_parts_def)

lemma mset_fst_sorted_parts: "mset (map fst (sorted_parts xs)) = mset [0..<length xs]"
proof -
  have "mset (map fst (sorted_parts xs)) = image_mset fst (mset (sorted_parts xs))"
    by (simp only: mset_map)
  also have "\<dots> = image_mset fst (mset (fractional_parts xs))"
    by (simp only: mset_sorted_parts)
  also have "\<dots> = mset (map fst (fractional_parts xs))"
    by (simp only: mset_map)
  also have "\<dots> = mset [0..<length xs]"
    by (simp only: map_fst_fractional_parts)
  finally show ?thesis .
qed

lemma distinct_fst_sorted_parts: "distinct (map fst (sorted_parts xs))"
proof -
  have "distinct (map fst (sorted_parts xs)) = distinct [0..<length xs]"
    by (rule mset_eq_imp_distinct_iff) (rule mset_fst_sorted_parts)
  then show ?thesis by simp
qed

lemma fst_sorted_parts_range: "x \<in> set (sorted_parts xs) \<Longrightarrow> fst x < length xs"
proof -
  assume "x \<in> set (sorted_parts xs)"
  then have "fst x \<in> set (map fst (sorted_parts xs))" by simp
  also have "set (map fst (sorted_parts xs)) = set [0..<length xs]"
    by (rule mset_eq_setD) (rule mset_fst_sorted_parts)
  finally show ?thesis by simp
qed

lemma map_nth_upt_take: "k \<le> length ys \<Longrightarrow> map (\<lambda>i. f (ys ! i)) [0..<k] = map f (take k ys)"
  by (rule nth_equalityI) simp_all

text \<open>The three ways \<open>largest_remainder\<close> ends, by the remainder.\<close>

lemma largest_remainder_result:
  fixes xs :: "real list" and T :: int
  defines "rem \<equiv> T - sum_list (map floor xs)"
  shows "largest_remainder xs T =
     (if rem \<le> int (length xs)
      then Inr (bump_all (map fst (take (nat rem) (sorted_parts xs))) (map floor xs))
      else Inl IndexError)"
proof (cases "rem \<le> int (length xs)")
  case True
  then have k: "nat rem \<le> length (sorted_parts xs)"
    by (simp add: length_sorted_parts)
  have "award_loop [0..<nat rem] (sorted_parts xs) (map floor xs) =
      Inr (bump_all (map (\<lambda>i. fst (sorted_parts xs ! i)) [0..<nat rem]) (map floor xs))"
    by (rule award_loop_fold) (use k in \<open>auto dest: fst_sorted_parts_range\<close>)
  then show ?thesis
    using True k by (simp add: largest_remainder_unfold py_range_def rem_def map_nth_upt_take)
next
  case False
  then have "length (sorted_parts xs) < nat rem"
    by (simp add: length_sorted_parts)
  then have "award_loop [0..<nat rem] (sorted_parts xs) (map floor xs) = Inl IndexError"
    by (rule award_loop_overrun) (auto dest: fst_sorted_parts_range)
  then show ?thesis
    using False by (simp add: largest_remainder_unfold py_range_def rem_def)
qed

lemma largest_remainder_sum:
  assumes "largest_remainder xs T = Inr r"
  shows "length r = length xs"
    and "sum_list r = sum_list (map floor xs) + int (nat (T - sum_list (map floor xs)))"
proof -
  let ?rem = "T - sum_list (map floor xs)"
  let ?idxs = "map fst (take (nat ?rem) (sorted_parts xs))"
  from assms have le: "?rem \<le> int (length xs)"
    and r: "r = bump_all ?idxs (map floor xs)"
    by (simp_all add: largest_remainder_result split: if_splits)
  show "length r = length xs" by (simp add: r length_bump_all)
  have "\<forall>i\<in>set ?idxs. i < length (map floor xs)"
    by (auto dest!: in_set_takeD fst_sorted_parts_range)
  then have "sum_list r = sum_list (map floor xs) + int (length ?idxs)"
    unfolding r by (rule sum_list_bump_all)
  moreover have "length ?idxs = nat ?rem"
    using le by (simp add: length_sorted_parts)
  ultimately show "sum_list r = sum_list (map floor xs) + int (nat ?rem)" by simp
qed

subsection \<open>Floors of amounts that sum to the total\<close>

lemma sum_list_floor_le: "of_int (sum_list (map floor xs)) \<le> sum_list (xs :: real list)"
proof (induction xs)
  case Nil
  then show ?case by simp
next
  case (Cons x xs)
  have "of_int \<lfloor>x\<rfloor> \<le> x" by (rule of_int_floor_le)
  with Cons show ?case unfolding list.map sum_list.Cons of_int_add by (rule add_mono[rotated])
qed

lemma sum_list_floor_ge:
  "sum_list (xs :: real list) \<le> of_int (sum_list (map floor xs)) + of_nat (length xs)"
proof (induction xs)
  case Nil
  then show ?case by simp
next
  case (Cons x xs)
  have "x \<le> of_int \<lfloor>x\<rfloor> + 1" by linarith
  with Cons have "x + sum_list xs \<le>
      (of_int \<lfloor>x\<rfloor> + 1) + (of_int (sum_list (map floor xs)) + of_nat (length xs))"
    by (intro add_mono)
  then show ?case by (simp add: algebra_simps)
qed

lemma floor_sum_bounds:
  assumes "sum_list (xs :: real list) = of_int T"
  shows "sum_list (map floor xs) \<le> T" and "T - sum_list (map floor xs) \<le> int (length xs)"
proof -
  have "(of_int (sum_list (map floor xs)) :: real) \<le> of_int T"
    using sum_list_floor_le[of xs] assms by simp
  then show "sum_list (map floor xs) \<le> T" by (simp only: of_int_le_iff)
  have "(of_int T :: real) \<le> of_int (sum_list (map floor xs) + int (length xs))"
    using sum_list_floor_ge[of xs] assms by simp
  then have "T \<le> sum_list (map floor xs) + int (length xs)" by (simp only: of_int_le_iff)
  then show "T - sum_list (map floor xs) \<le> int (length xs)" by simp
qed

lemma sum_list_scaled: "sum_list (map (\<lambda>x. x / w * t) xs) = sum_list xs / w * (t :: real)"
  by (induction xs) (simp_all add: add_divide_distrib distrib_right)

subsection \<open>Reading the shares\<close>

lemma get_shares_Inr:
  "get_shares ss = Inr xs \<Longrightarrow> xs = map (\<lambda>s. the (share s)) ss \<and> list_all (\<lambda>s. share s \<noteq> None) ss"
proof (induction ss arbitrary: xs)
  case Nil
  then show ?case by simp
next
  case (Cons s ss)
  then show ?case by (auto split: option.splits sum.splits)
qed


lemma get_shares_present:
  "list_all (\<lambda>s. share s \<noteq> None) ss \<Longrightarrow> get_shares ss = Inr (map (\<lambda>s. the (share s)) ss)"
  by (induction ss) auto

subsection \<open>The per-type results\<close>

lemma normalize_shares_unfold:
  assumes "splits \<noteq> []" "T \<noteq> 0" "list_all (\<lambda>s. shareType s = shareType (hd splits)) splits"
  shows "normalize_shares splits T =
     (case per_type (shareType (hd splits)) (map snd (stable_order splits)) T of
        Inl e \<Rightarrow> Inl e
      | Inr v \<Rightarrow> scatter (stable_order splits) (enumerate 0 v) (replicate (length splits) 0))"
  using assms by (simp add: normalize_shares_def per_type_def Let_def)

lemma normalize_percentage_length:
  "normalize_percentage ss T = Inr v \<Longrightarrow> length v = length ss"
  by (auto simp: normalize_percentage_def Let_def split: sum.splits if_splits
      dest!: get_shares_Inr largest_remainder_sum(1))

lemma normalize_weight_length:
  "normalize_weight ss T = Inr v \<Longrightarrow> length v = length ss"
  by (auto simp: normalize_weight_def Let_def split: sum.splits if_splits
      dest!: get_shares_Inr largest_remainder_sum(1))

lemma normalize_amount_length:
  "normalize_amount ss T = Inr v \<Longrightarrow> length v = length ss"
  by (auto simp: normalize_amount_def Let_def split: if_splits)

lemma per_type_length:
  assumes "per_type t ss T = Inr v" "ss \<noteq> []"
  shows "length v = length ss"
proof -
  consider "t = ''equal''" | "t = ''percentage''" | "t = ''weight''" | "t = ''amount''"
    | "t \<noteq> ''equal''" "t \<noteq> ''percentage''" "t \<noteq> ''weight''" "t \<noteq> ''amount''"
    by blast
  then show ?thesis
  proof cases
    case 1
    then have "normalize_equal (length ss) T = Inr v" using assms(1) by (simp add: per_type_def)
    then show ?thesis using assms(2) normalize_equal_sum(2) by simp
  next
    case 2
    then have "normalize_percentage ss T = Inr v" using assms(1) by (simp add: per_type_def)
    then show ?thesis by (rule normalize_percentage_length)
  next
    case 3
    then have "normalize_weight ss T = Inr v" using assms(1) by (simp add: per_type_def)
    then show ?thesis by (rule normalize_weight_length)
  next
    case 4
    then have "normalize_amount ss T = Inr v" using assms(1) by (simp add: per_type_def)
    then show ?thesis by (rule normalize_amount_length)
  next
    case 5
    then show ?thesis using assms(1) by (simp add: per_type_def)
  qed
qed

text \<open>What a successful call returns: the per-type shares \<open>v\<close> of the canonical order,
  each moved to the original position of its split.\<close>

lemma normalize_shares_Inr:
  assumes "normalize_shares splits T = Inr r" "splits \<noteq> []" "T \<noteq> 0"
  shows "list_all (\<lambda>s. shareType s = shareType (hd splits)) splits"
    and "length r = length splits"
    and "per_type (shareType (hd splits)) (map snd (stable_order splits)) T =
           Inr (map (\<lambda>x. r ! fst x) (stable_order splits))"
proof -
  show same: "list_all (\<lambda>s. shareType s = shareType (hd splits)) splits"
    using assms by (simp add: normalize_shares_def Let_def split: if_splits)
  note unf = normalize_shares_unfold[OF assms(2,3) same]
  from assms(1) obtain v where v: "per_type (shareType (hd splits)) (map snd (stable_order splits)) T = Inr v"
    and sc: "scatter (stable_order splits) (enumerate 0 v) (replicate (length splits) 0) = Inr r"
    unfolding unf by (auto split: sum.splits)
  have ne: "map snd (stable_order splits) \<noteq> []"
    using assms(2) length_stable_order[of splits] by auto
  have lv: "length v = length splits"
    using per_type_length[OF v ne] by (simp add: length_stable_order)
  from scatter_stable_order[OF lv] sc
  have "length r = length splits \<and> map (\<lambda>x. r ! fst x) (stable_order splits) = v"
    by auto
  then show "length r = length splits"
    and "per_type (shareType (hd splits)) (map snd (stable_order splits)) T =
           Inr (map (\<lambda>x. r ! fst x) (stable_order splits))"
    using v by simp_all
qed

lemma canonical_view_mset:
  assumes "length r = length splits"
  shows "mset (map (\<lambda>x. r ! fst x) (stable_order splits)) = mset r"
proof -
  have "mset (map (\<lambda>x. r ! fst x) (stable_order splits))
      = image_mset (nth r) (mset (map fst (stable_order splits)))"
    by (simp add: image_mset.compositionality comp_def flip: mset_map)
  also have "\<dots> = image_mset (nth r) (mset [0..<length r])"
    by (simp only: mset_fst_stable_order assms)
  also have "\<dots> = mset (map (nth r) [0..<length r])"
    by (simp only: mset_map)
  also have "\<dots> = mset r"
    by (simp only: map_nth)
  finally show ?thesis .
qed

lemma canonical_view_sum:
  assumes "length r = length splits"
  shows "sum_list (map (\<lambda>x. r ! fst x) (stable_order splits)) = sum_list (r :: int list)"
proof -
  have "sum_mset (mset (map (\<lambda>x. r ! fst x) (stable_order splits))) = sum_mset (mset r)"
    by (simp only: canonical_view_mset[OF assms])
  then show ?thesis by (simp only: sum_mset_sum_list)
qed

lemma sum_over_stable_order:
  "sum_list (map f (map snd (stable_order splits))) = sum_list (map f splits)"
  for f :: "'p::linorder split \<Rightarrow> 'a::comm_monoid_add"
proof -
  have "mset (map f (map snd (stable_order splits))) = image_mset f (mset (map snd (stable_order splits)))"
    by (simp only: mset_map)
  also have "\<dots> = image_mset f (mset splits)"
    by (simp only: mset_snd_stable_order)
  also have "\<dots> = mset (map f splits)"
    by (simp only: mset_map)
  finally have "mset (map f (map snd (stable_order splits))) = mset (map f splits)" .
  then have "sum_mset (mset (map f (map snd (stable_order splits)))) = sum_mset (mset (map f splits))"
    by (simp only:)
  then show ?thesis by (simp only: sum_mset_sum_list)
qed

subsection \<open>Sums of the per-type results\<close>

lemma largest_remainder_exact_sum:
  assumes "largest_remainder xs T = Inr v" "sum_list (map floor xs) \<le> T"
  shows "sum_list v = T"
  using largest_remainder_sum(2)[OF assms(1)] assms(2) by simp

lemma normalize_weight_sum:
  assumes "normalize_weight ss T = Inr v"
  shows "sum_list v = T"
proof -
  from assms obtain xs where xs: "get_shares ss = Inr xs"
    by (auto simp: normalize_weight_def split: sum.splits)
  define W where "W = sum_list xs"
  from assms xs have W: "0 < W"
    and lr: "largest_remainder (map (\<lambda>x. (x / W) * of_int T) xs) T = Inr v"
    by (auto simp: normalize_weight_def Let_def W_def split: if_splits)
  have "sum_list (map (\<lambda>x. (x / W) * of_int T) xs) = sum_list xs / W * of_int T"
    by (rule sum_list_scaled)
  also have "\<dots> = of_int T"
    using W by (simp add: W_def)
  finally have "sum_list (map (\<lambda>x. (x / W) * of_int T) xs) = of_int T" .
  then have "sum_list (map floor (map (\<lambda>x. (x / W) * of_int T) xs)) \<le> T"
    by (rule floor_sum_bounds(1))
  with lr show ?thesis by (rule largest_remainder_exact_sum)
qed

lemma normalize_percentage_sum:
  assumes "normalize_percentage ss T = Inr v"
    and "sum_list (map (\<lambda>s. the (share s)) ss) = 100
         \<or> sum_list (map (\<lambda>s. \<lfloor>the (share s) / 100 * of_int T\<rfloor>) ss) \<le> T"
  shows "sum_list v = T"
proof -
  from assms(1) obtain xs where xs: "get_shares ss = Inr xs"
    by (auto simp: normalize_percentage_def split: sum.splits)
  then have xs_eq: "xs = map (\<lambda>s. the (share s)) ss"
    by (auto dest: get_shares_Inr)
  from assms(1) xs have lr: "largest_remainder (map (\<lambda>x. (x / 100) * of_int T) xs) T = Inr v"
    by (auto simp: normalize_percentage_def Let_def split: if_splits)
  have "sum_list (map floor (map (\<lambda>x. (x / 100) * of_int T) xs)) \<le> T"
    using assms(2)
  proof
    assume "sum_list (map (\<lambda>s. the (share s)) ss) = 100"
    then have hundred: "sum_list xs = 100" by (simp only: xs_eq)
    have "sum_list (map (\<lambda>x. (x / 100) * of_int T) xs) = sum_list xs / 100 * of_int T"
      by (rule sum_list_scaled)
    also have "\<dots> = of_int T"
      by (simp add: hundred)
    finally have "sum_list (map (\<lambda>x. (x / 100) * of_int T) xs) = of_int T" .
    then show ?thesis by (rule floor_sum_bounds(1))
  next
    assume "sum_list (map (\<lambda>s. \<lfloor>the (share s) / 100 * of_int T\<rfloor>) ss) \<le> T"
    then show ?thesis by (simp add: xs_eq comp_def)
  qed
  with lr show ?thesis by (rule largest_remainder_exact_sum)
qed

lemma normalize_amount_sum:
  "normalize_amount ss T = Inr v \<Longrightarrow> sum_list v = T"
  by (auto simp: normalize_amount_def Let_def split: if_splits)

text \<open>
  The sum of the returned shares. Whenever \<open>normalize_shares\<close> returns shares for a
  non-empty list and a non-zero total \<open>T\<close>, the shares sum to \<open>T\<close> exactly, for the
  types \<open>equal\<close>, \<open>weight\<close> and \<open>amount\<close> always, and for the type \<open>percentage\<close>
  when the floors of the exact amounts do not exceed \<open>T\<close> in sum, which is the case
  whenever the percentages sum to exactly 100.
\<close>

lemma normalize_shares_sum:
  assumes "normalize_shares splits T = Inr r" "splits \<noteq> []" "T \<noteq> 0"
    and "shareType (hd splits) = ''percentage'' \<Longrightarrow>
           sum_list (map (\<lambda>s. the (share s)) splits) = 100
           \<or> sum_list (map (\<lambda>s. \<lfloor>the (share s) / 100 * of_int T\<rfloor>) splits) \<le> T"
  shows "sum_list r = T"
proof -
  let ?ss = "map snd (stable_order splits)"
  let ?v = "map (\<lambda>x. r ! fst x) (stable_order splits)"
  let ?t = "shareType (hd splits)"
  note res = normalize_shares_Inr[OF assms(1-3)]
  have sum_r: "sum_list r = sum_list ?v"
    by (simp only: canonical_view_sum[OF res(2)])
  have n: "0 < length ?ss"
    using assms(2) by (simp add: length_stable_order)
  consider "?t = ''equal''" | "?t = ''percentage''" | "?t = ''weight''" | "?t = ''amount''"
    | "?t \<noteq> ''equal''" "?t \<noteq> ''percentage''" "?t \<noteq> ''weight''" "?t \<noteq> ''amount''"
    by blast
  then have "sum_list ?v = T"
  proof cases
    case 1
    then have "normalize_equal (length ?ss) T = Inr ?v" using res(3) by (simp add: per_type_def)
    then show ?thesis by (rule normalize_equal_sum(1)[OF n])
  next
    case 2
    then have p: "normalize_percentage ?ss T = Inr ?v" using res(3) by (simp add: per_type_def)
    from assms(4)[OF 2]
    have "sum_list (map (\<lambda>s. the (share s)) ?ss) = 100
         \<or> sum_list (map (\<lambda>s. \<lfloor>the (share s) / 100 * of_int T\<rfloor>) ?ss) \<le> T"
      by (simp only: sum_over_stable_order)
    with p show ?thesis by (rule normalize_percentage_sum)
  next
    case 3
    then have "normalize_weight ?ss T = Inr ?v" using res(3) by (simp add: per_type_def)
    then show ?thesis by (rule normalize_weight_sum)
  next
    case 4
    then have "normalize_amount ?ss T = Inr ?v" using res(3) by (simp add: per_type_def)
    then show ?thesis by (rule normalize_amount_sum)
  next
    case 5
    then show ?thesis using res(3) by (simp add: per_type_def)
  qed
  with sum_r show ?thesis by simp
qed

lemma normalize_shares_sum_example:
  "normalize_shares
     [\<lparr>participantId = 1::nat, shareType = ''percentage'', share = Some (3334 / 100), amount = None\<rparr>,
      \<lparr>participantId = 2, shareType = ''percentage'', share = Some (3333 / 100), amount = None\<rparr>,
      \<lparr>participantId = 3, shareType = ''percentage'', share = Some (3333 / 100), amount = None\<rparr>]
     100 = Inr [34, 33, 33]
   \<and> sum_list [34, 33, 33] = (100::int)"
proof -
  let ?splits = "[\<lparr>participantId = 1::nat, shareType = ''percentage'', share = Some (3334 / 100), amount = None\<rparr>,
      \<lparr>participantId = 2, shareType = ''percentage'', share = Some (3333 / 100), amount = None\<rparr>,
      \<lparr>participantId = 3, shareType = ''percentage'', share = Some (3333 / 100), amount = None\<rparr>]"
  have run: "normalize_shares ?splits 100 = Inr [34, 33, 33]"
    by code_simp
  have pct: "sum_list (map (\<lambda>s. the (share s)) ?splits) = 100
      \<or> sum_list (map (\<lambda>s. \<lfloor>the (share s) / 100 * of_int 100\<rfloor>) ?splits) \<le> (100::int)"
    by simp
  have "sum_list [34, 33, 33] = (100::int)"
    by (rule normalize_shares_sum[OF run _ _ pct]) simp_all
  with run show ?thesis by simp
qed

text \<open>
  Claim C1. The shares that \<open>normalize_shares\<close> returns for a non-empty list that passes
  validation and a non-zero total \<open>T\<close> sum to \<open>T\<close>. The code breaks this for the type
  \<open>percentage\<close>: the percentages 50 and 50.0078125 are within the tolerance of 100, and
  with \<open>T = 1000000\<close> the floors of the exact amounts are 500000 and 500078, the
  remainder is \<open>-78\<close>, \<open>range(remainder)\<close> is empty, and the shares returned sum to
  1000078.
\<close>

theorem normalize_shares_sum_drift:
  "\<bar>(50 + (50 + 1 / 128)) - 100\<bar> \<le> tolerance
   \<and> normalize_shares
     [\<lparr>participantId = 1::nat, shareType = ''percentage'', share = Some 50, amount = None\<rparr>,
      \<lparr>participantId = 2, shareType = ''percentage'', share = Some (50 + 1 / 128), amount = None\<rparr>]
     1000000 = Inr [500000, 500078]
   \<and> sum_list [500000, 500078] \<noteq> (1000000::int)"
proof (intro conjI)
  show "\<bar>(50 + (50 + 1 / 128)) - 100\<bar> \<le> tolerance"
    by (simp add: tolerance_def ulp_one_def)
  show "normalize_shares
     [\<lparr>participantId = 1::nat, shareType = ''percentage'', share = Some 50, amount = None\<rparr>,
      \<lparr>participantId = 2, shareType = ''percentage'', share = Some (50 + 1 / 128), amount = None\<rparr>]
     1000000 = Inr [500000, 500078]"
    by code_simp
  show "sum_list [500000, 500078] \<noteq> (1000000::int)"
    by simp
qed



subsection \<open>When a ValueError is raised\<close>












text \<open>
  Claim C5. For a list of type \<open>percentage\<close> that passes validation and a non-zero total
  \<open>T\<close>, \<open>normalize_shares\<close> floors the exact amounts \<open>(share / 100) * T\<close> and awards
  the remainder \<open>T - sum(floors)\<close>, one unit each, to the splits with the largest
  fractional parts. The code breaks this when the remainder exceeds the number of splits:
  the percentages 50 and 49.9921875 are within the tolerance of 100, and with
  \<open>T = 1000000\<close> the floors are 500000 and 499921, the remainder is 79, and the third
  round of the award loop reads \<open>fractional_parts[2]\<close> of a list of two entries, which
  raises \<open>IndexError\<close>; no shares are returned.
\<close>

theorem normalize_shares_percentage_overrun:
  "\<bar>(50 + (50 - 1 / 128)) - 100\<bar> \<le> tolerance
   \<and> normalize_shares
     [\<lparr>participantId = 1::nat, shareType = ''percentage'', share = Some 50, amount = None\<rparr>,
      \<lparr>participantId = 2, shareType = ''percentage'', share = Some (50 - 1 / 128), amount = None\<rparr>]
     1000000 = Inl IndexError"
proof (intro conjI)
  show "\<bar>(50 + (50 - 1 / 128)) - 100\<bar> \<le> tolerance"
    by (simp add: tolerance_def ulp_one_def)
  show "normalize_shares
     [\<lparr>participantId = 1::nat, shareType = ''percentage'', share = Some 50, amount = None\<rparr>,
      \<lparr>participantId = 2, shareType = ''percentage'', share = Some (50 - 1 / 128), amount = None\<rparr>]
     1000000 = Inl IndexError"
    by code_simp
qed

end
